theory Spec2Isabelle
  imports Main "HOL-Library.Word"
begin

section \<open>C strings and plain characters\<close>

text \<open>
  A \<^verbatim>\<open>const char *\<close> is modelled by the bytes that follow the pointer. The
  terminating NUL is implicit at the end of the list, and a zero byte inside the
  list terminates the C string as well, so every list is a NUL-terminated
  string. \<open>deref p\<close> is \<^verbatim>\<open>*p\<close>, and \<open>tl p\<close> is \<^verbatim>\<open>p + 1\<close> where the source
  has checked that \<^verbatim>\<open>*p\<close> is not NUL.
\<close>

definition NUL :: char where
  "NUL = CHR 0x00"

fun deref :: "string \<Rightarrow> char" where
  "deref [] = NUL"
| "deref (c # cs) = c"

text \<open>
  The source compares \<^verbatim>\<open>*fname > *nname\<close> on plain \<^verbatim>\<open>char\<close>. Both
  operands are promoted to \<^verbatim>\<open>int\<close>; whether a byte upper 0x7f becomes
  negative is left to the platform by C, and the targets of this repository
  differ in it. The flag \<open>sg\<close> says that plain \<^verbatim>\<open>char\<close> is signed.
\<close>

definition char_val :: "bool \<Rightarrow> char \<Rightarrow> int" where
  "char_val sg c =
     (if sg \<and> 128 \<le> (of_char c :: int) then of_char c - 256 else of_char c)"

section \<open>fs/inode/fs_inodesearch.c\<close>

subsection \<open>The inode\<close>

type_synonym addr = nat

text \<open>
  Modelled from the spec: the declaration of \<^verbatim>\<open>struct inode\<close> and the macros
  \<^verbatim>\<open>INODE_IS_MOUNTPT\<close> and \<^verbatim>\<open>INODE_IS_SOFTLINK\<close> live in headers that are
  not part of the sources. The spec gives a node a name, a peer, a child, a link
  target and kind predicates that exclude each other; the kind is a datatype.
  Pointers are \<open>addr option\<close> with \<open>None\<close> for \<^verbatim>\<open>NULL\<close>; \<open>i_name\<close> is a
  pointer as well, since the comparator tests it against \<^verbatim>\<open>NULL\<close>.
\<close>

datatype inode_kind = Ordinary | Mountpt | Softlink

record inode =
  i_peer :: "addr option"
  i_child :: "addr option"
  i_kind :: inode_kind
  i_link :: string
  i_name :: "string option"

definition INODE_IS_MOUNTPT :: "inode \<Rightarrow> bool" where
  "INODE_IS_MOUNTPT node = (i_kind node = Mountpt)"

definition INODE_IS_SOFTLINK :: "inode \<Rightarrow> bool" where
  "INODE_IS_SOFTLINK node = (i_kind node = Softlink)"

subsection \<open>\<^verbatim>\<open>_inode_compare\<close>\<close>

text \<open>The \<^verbatim>\<open>for (; ; )\<close> loop of the comparator, branch by branch.\<close>

function inode_compare_loop :: "bool \<Rightarrow> string \<Rightarrow> string \<Rightarrow> int" where
  "inode_compare_loop sg fname nname =
     (if deref nname = NUL then
        (if deref fname = NUL \<or> deref fname = CHR ''/'' then 0 else 1)
      else if deref fname = NUL \<or> deref fname = CHR ''/'' then - 1
      else if char_val sg (deref fname) > char_val sg (deref nname) then 1
      else if char_val sg (deref fname) < char_val sg (deref nname) then - 1
      else inode_compare_loop sg (tl fname) (tl nname))"
  by pat_completeness auto
termination
proof (relation "measure (\<lambda>(sg, fname, nname). length nname)")
  fix sg :: bool and fname nname :: string
  assume "deref nname \<noteq> NUL"
  then have "nname \<noteq> []"
    by (cases nname) simp_all
  then show "((sg, tl fname, tl nname), (sg, fname, nname))
      \<in> measure (\<lambda>(sg, fname, nname). length nname)"
    by simp
qed simp

definition inode_compare :: "bool \<Rightarrow> string option \<Rightarrow> inode \<Rightarrow> int" where
  "inode_compare sg fname node =
     (case i_name node of
        None \<Rightarrow> 1
      | Some nname \<Rightarrow>
          (case fname of
             None \<Rightarrow> - 1
           | Some f \<Rightarrow> inode_compare_loop sg f nname))"

subsection \<open>\<^verbatim>\<open>inode_nextname\<close>\<close>

text \<open>The \<^verbatim>\<open>while (*name && *name != '/') name++\<close> loop.\<close>

function skip_segment :: "string \<Rightarrow> string" where
  "skip_segment name =
     (if deref name \<noteq> NUL \<and> deref name \<noteq> CHR ''/'' then skip_segment (tl name)
      else name)"
  by pat_completeness auto
termination
proof (relation "measure length")
  fix name :: string
  assume "deref name \<noteq> NUL \<and> deref name \<noteq> CHR ''/''"
  then have "name \<noteq> []"
    by (cases name) simp_all
  then show "(tl name, name) \<in> measure length"
    by simp
qed simp

definition inode_nextname :: "string \<Rightarrow> string" where
  "inode_nextname name =
     (let name' = skip_segment name
      in if deref name' \<noteq> NUL then tl name' else name')"

subsection \<open>The tree, the platform and the out-parameters\<close>

text \<open>
  The inodes live in a typed heap: every non-\<^verbatim>\<open>NULL\<close> inode pointer holds an
  inode. \<open>g_root_inode\<close> is the global of the source.
\<close>

record fs =
  inodes :: "addr \<Rightarrow> inode"
  g_root_inode :: "addr option"

text \<open>
  What the source takes from the platform: the signedness of plain
  \<^verbatim>\<open>char\<close> and \<^verbatim>\<open>SYMLOOP_MAX\<close> of \<^verbatim>\<open>limits.h\<close>, compared with an
  \<^verbatim>\<open>unsigned int\<close> counter.
\<close>

record platform =
  char_signed :: bool
  SYMLOOP_MAX :: "32 word"

text \<open>
  The caller's cells behind the out-pointers \<^verbatim>\<open>peer\<close>, \<^verbatim>\<open>parent\<close> and
  \<^verbatim>\<open>relpath\<close>. The functions take one flag for each pointer (true when the
  pointer is not \<^verbatim>\<open>NULL\<close>) and the cells before the call, and return the cells
  after it.
\<close>

record outs =
  peer_cell :: "addr option"
  parent_cell :: "addr option"
  relpath_cell :: "string option"

text \<open>
  A call returns, runs out of fuel, or reads outside its string. Fuel bounds the
  number of loop bodies executed on any path of calls: a loop whose guard fails
  needs none, every execution of a loop body takes one unit.
\<close>

datatype 'a outcome = OutOfFuel | BadPointer | Returns 'a

definition set_relpath :: "bool \<Rightarrow> string \<Rightarrow> outs \<Rightarrow> outs" where
  "set_relpath relpath name out =
     (if relpath then out\<lparr>relpath_cell := Some name\<rparr> else out)"

definition set_peer :: "bool \<Rightarrow> addr option \<Rightarrow> outs \<Rightarrow> outs" where
  "set_peer peer left out = (if peer then out\<lparr>peer_cell := left\<rparr> else out)"

definition set_parent :: "bool \<Rightarrow> addr option \<Rightarrow> outs \<Rightarrow> outs" where
  "set_parent parent upper out = (if parent then out\<lparr>parent_cell := upper\<rparr> else out)"

subsection \<open>\<^verbatim>\<open>inode_search_nofollow\<close> and \<^verbatim>\<open>inode_linktarget\<close>\<close>

text \<open>
  The source with \<^verbatim>\<open>CONFIG_PSEUDOFS_SOFTLINKS\<close> defined. \<open>search_walk\<close> is the
  \<^verbatim>\<open>while (node != NULL)\<close> loop of \<^verbatim>\<open>inode_search_nofollow\<close> and returns
  \<open>(node, name, left, upper, cells)\<close>, where \<open>upper\<close> is the source's
  \<^verbatim>\<open>above\<close>; \<open>inode_linktarget_loop\<close> is the
  \<^verbatim>\<open>while\<close> loop of \<^verbatim>\<open>inode_linktarget\<close> with its counter. When the link
  target of an intermediate soft link is not found, the source leaves the loop by
  \<^verbatim>\<open>break\<close> with \<^verbatim>\<open>node\<close> still the soft link.
\<close>

function search_walk ::
      "platform \<Rightarrow> fs \<Rightarrow> nat \<Rightarrow> string \<Rightarrow> addr option \<Rightarrow> addr option \<Rightarrow> addr option \<Rightarrow> bool \<Rightarrow> outs
        \<Rightarrow> (addr option \<times> string \<times> addr option \<times> addr option \<times> outs) outcome"
  and inode_search_nofollow ::
      "platform \<Rightarrow> fs \<Rightarrow> nat \<Rightarrow> string \<Rightarrow> bool \<Rightarrow> bool \<Rightarrow> bool \<Rightarrow> outs
        \<Rightarrow> (addr option \<times> string \<times> outs) outcome"
  and inode_linktarget_loop ::
      "platform \<Rightarrow> fs \<Rightarrow> nat \<Rightarrow> addr option \<Rightarrow> 32 word \<Rightarrow> bool \<Rightarrow> bool \<Rightarrow> bool \<Rightarrow> outs
        \<Rightarrow> (addr option \<times> outs) outcome"
where
  "search_walk pf t n name None left upper relpath out =
     Returns (None, name, left, upper, out)"
| "search_walk pf t 0 name (Some a) left upper relpath out = OutOfFuel"
| "search_walk pf t (Suc n) name (Some a) left upper relpath out =
     (let result = inode_compare (char_signed pf) (Some name) (inodes t a) in
      if result < 0 then Returns (None, name, left, upper, out)
      else if result > 0 then
        search_walk pf t n name (i_peer (inodes t a)) (Some a) upper relpath out
      else
        (let name' = inode_nextname name in
         if deref name' = NUL \<or> INODE_IS_MOUNTPT (inodes t a) then
           Returns (Some a, name', left, upper, set_relpath relpath name' out)
         else
           (case inode_linktarget_loop pf t n (Some a) 0 False False relpath out of
              OutOfFuel \<Rightarrow> OutOfFuel
            | BadPointer \<Rightarrow> BadPointer
            | Returns (newnode, out') \<Rightarrow>
                (case newnode of
                   None \<Rightarrow> Returns (Some a, name', left, upper, out')
                 | Some b \<Rightarrow>
                     if b \<noteq> a \<and> INODE_IS_MOUNTPT (inodes t b) then
                       Returns (Some b, name', None, None, set_relpath relpath name' out')
                     else
                       search_walk pf t n name' (i_child (inodes t b)) None (Some b)
                         relpath out'))))"
| "inode_search_nofollow pf t n path peer parent relpath out =
     (case path of
        [] \<Rightarrow> BadPointer
      | c # name \<Rightarrow>
          (case search_walk pf t n name (g_root_inode t) None None relpath out of
             OutOfFuel \<Rightarrow> OutOfFuel
           | BadPointer \<Rightarrow> BadPointer
           | Returns (node, name', left, upper, out') \<Rightarrow>
               Returns (node, name', set_parent parent upper (set_peer peer left out'))))"
| "inode_linktarget_loop pf t n None count peer parent relpath out = Returns (None, out)"
| "inode_linktarget_loop pf t 0 (Some a) count peer parent relpath out =
     (if INODE_IS_SOFTLINK (inodes t a) then OutOfFuel else Returns (Some a, out))"
| "inode_linktarget_loop pf t (Suc n) (Some a) count peer parent relpath out =
     (if INODE_IS_SOFTLINK (inodes t a) then
        (case inode_search_nofollow pf t n (i_link (inodes t a)) peer parent relpath out of
           OutOfFuel \<Rightarrow> OutOfFuel
         | BadPointer \<Rightarrow> BadPointer
         | Returns (node, copy, out') \<Rightarrow>
             if node = None \<and> count + 1 > SYMLOOP_MAX pf then Returns (None, out')
             else
               inode_linktarget_loop pf t n node (if node = None then count + 1 else count)
                 peer parent relpath out')
      else Returns (Some a, out))"
  by pat_completeness auto
termination
  by (relation "measure (\<lambda>x. case x of
        Inl (pf, t, n, r) \<Rightarrow> 2 * n
      | Inr (Inl (pf, t, n, r)) \<Rightarrow> 2 * n + 1
      | Inr (Inr (pf, t, n, r)) \<Rightarrow> 2 * n)") simp_all

definition inode_linktarget ::
    "platform \<Rightarrow> fs \<Rightarrow> nat \<Rightarrow> addr option \<Rightarrow> bool \<Rightarrow> bool \<Rightarrow> bool \<Rightarrow> outs
      \<Rightarrow> (addr option \<times> outs) outcome" where
  "inode_linktarget pf t n node peer parent relpath out =
     inode_linktarget_loop pf t n node 0 peer parent relpath out"

subsection \<open>\<^verbatim>\<open>inode_search\<close>\<close>

definition inode_search ::
    "platform \<Rightarrow> fs \<Rightarrow> nat \<Rightarrow> string \<Rightarrow> bool \<Rightarrow> bool \<Rightarrow> bool \<Rightarrow> outs
      \<Rightarrow> (addr option \<times> string \<times> outs) outcome" where
  "inode_search pf t n path peer parent relpath out =
     (case inode_search_nofollow pf t n path peer parent relpath out of
        OutOfFuel \<Rightarrow> OutOfFuel
      | BadPointer \<Rightarrow> BadPointer
      | Returns (node, path', out') \<Rightarrow>
          (case node of
             None \<Rightarrow> Returns (node, path', out')
           | Some a \<Rightarrow>
               if INODE_IS_SOFTLINK (inodes t a) then
                 (case inode_linktarget pf t n node peer parent relpath out' of
                    OutOfFuel \<Rightarrow> OutOfFuel
                  | BadPointer \<Rightarrow> BadPointer
                  | Returns (node', out'') \<Rightarrow> Returns (node', path', out''))
               else Returns (node, path', out')))"

section \<open>libs/libc/pthread/pthread_condattr_init.c\<close>

text \<open>
  \<^verbatim>\<open>pthread_condattr_t\<close> is an integer type of \<^verbatim>\<open>pthread.h\<close>, and \<^verbatim>\<open>OK\<close>
  and \<^verbatim>\<open>EINVAL\<close> are macros of headers outside the sources; no theorem
  depends on the value of \<open>EINVAL\<close>. The memory the function can reach is the
  cell behind \<^verbatim>\<open>attr\<close>: a map from addresses to attribute values. The two
  \<^verbatim>\<open>linfo\<close> calls write to the debug log only.
\<close>

definition OK :: int where
  "OK = 0"

definition EINVAL :: int where
  "EINVAL = 22"

definition pthread_condattr_init :: "(addr \<Rightarrow> int) \<Rightarrow> addr option \<Rightarrow> int \<times> (addr \<Rightarrow> int)" where
  "pthread_condattr_init mem attr =
     (case attr of
        None \<Rightarrow> (EINVAL, mem)
      | Some p \<Rightarrow> (OK, mem(p := 0)))"

section \<open>Vocabulary of the properties\<close>

text \<open>
  \<open>seg_end f\<close> is the source's test \<^verbatim>\<open>!*fname || *fname == '/'\<close>;
  \<open>segment_chars s\<close> says that \<open>s\<close> is the text of one segment: no byte of it
  ends a segment.
\<close>

definition seg_end :: "string \<Rightarrow> bool" where
  "seg_end f = (deref f = NUL \<or> deref f = CHR ''/'')"

definition segment_chars :: "string \<Rightarrow> bool" where
  "segment_chars s = (\<forall>c\<in>set s. c \<noteq> NUL \<and> c \<noteq> CHR ''/'')"

text \<open>The path \<^verbatim>\<open>/s1/s2/.../sk\<close> of a list of segments.\<close>

definition path_of :: "string list \<Rightarrow> string" where
  "path_of segs = concat (map (\<lambda>s. CHR ''/'' # s) segs)"

text \<open>
  The sibling-ordering invariant of the data model: the name of a peer, read as a
  segment, compares greater than the node before it. The flag \<open>sg\<close> chooses the
  order on bytes. \<open>peers_sorted False\<close> is the invariant as the spec words it,
  byte-wise on unsigned bytes; \<open>peers_sorted (char_signed pf)\<close> is the order in
  which the comparator of the source reads the bytes on the platform \<open>pf\<close>. The
  two differ on bytes from 0x80 on where plain \<^verbatim>\<open>char\<close> is signed.
\<close>

definition peers_sorted :: "bool \<Rightarrow> fs \<Rightarrow> bool" where
  "peers_sorted sg t =
     (\<forall>a p. i_peer (inodes t a) = Some p \<longrightarrow>
        0 < inode_compare sg (i_name (inodes t p)) (inodes t a))"

text \<open>
  Resolution by segment matching, as the mount point claim words it: \<open>on_peers\<close>
  finds a node on a sibling list, and \<open>resolves_by_segments t first segs m\<close> says
  that the segments \<open>segs\<close>, matched one level after the other from the sibling
  list \<open>first\<close>, name the node \<open>m\<close>. The levels above \<open>m\<close> are ordinary nodes:
  a mount point has no children for the resolver (invariant 4 of the data
  model), and the claim leaves soft link jumps out.
\<close>

inductive on_peers :: "fs \<Rightarrow> addr option \<Rightarrow> addr \<Rightarrow> bool" for t :: fs where
  here: "on_peers t (Some a) a"
| further: "on_peers t (i_peer (inodes t a)) b \<Longrightarrow> on_peers t (Some a) b"

code_pred (modes: i \<Rightarrow> i \<Rightarrow> i \<Rightarrow> bool, i \<Rightarrow> i \<Rightarrow> o \<Rightarrow> bool) on_peers .

inductive resolves_by_segments :: "fs \<Rightarrow> addr option \<Rightarrow> string list \<Rightarrow> addr \<Rightarrow> bool"
  for t :: fs where
  final: "on_peers t first m \<Longrightarrow> i_name (inodes t m) = Some s \<Longrightarrow>
            resolves_by_segments t first [s] m"
| descend: "on_peers t first d \<Longrightarrow> i_name (inodes t d) = Some s \<Longrightarrow>
            i_kind (inodes t d) = Ordinary \<Longrightarrow>
            resolves_by_segments t (i_child (inodes t d)) ss m \<Longrightarrow>
            resolves_by_segments t first (s # ss) m"

code_pred (modes: i \<Rightarrow> i \<Rightarrow> i \<Rightarrow> i \<Rightarrow> bool) resolves_by_segments .

subsection \<open>The trees of the scenarios\<close>

text \<open>
  \<open>blank\<close> fills the addresses that hold no node of a scenario, and \<open>named s\<close>
  is a lone node with the name \<open>s\<close>. \<open>tree_T1\<close> is the tree
  \<open>T\<^sub>1\<close> of the scenarios (\<^verbatim>\<open>bin\<close> at 10 with \<^verbatim>\<open>ls\<close> at 11 and
  \<^verbatim>\<open>sh\<close> at 12, \<^verbatim>\<open>dev\<close> at 20 with \<^verbatim>\<open>null\<close> at 21, the mount point
  \<^verbatim>\<open>mnt\<close> at 30), and \<open>tree_T3\<close> is \<open>T\<^sub>3\<close>: the soft link \<^verbatim>\<open>a\<close> at 10 with
  target \<^verbatim>\<open>/b\<close> and the soft link \<^verbatim>\<open>b\<close> at 20 with target \<^verbatim>\<open>/a\<close>.
\<close>

definition blank :: inode where
  "blank = \<lparr>i_peer = None, i_child = None, i_kind = Ordinary, i_link = [], i_name = None\<rparr>"

definition named :: "string \<Rightarrow> inode" where
  "named s = \<lparr>i_peer = None, i_child = None, i_kind = Ordinary, i_link = [], i_name = Some s\<rparr>"

definition tree_T1 :: fs where
  "tree_T1 =
     \<lparr>inodes = (\<lambda>_. blank)
        (10 := \<lparr>i_peer = Some 20, i_child = Some 11, i_kind = Ordinary, i_link = [],
                 i_name = Some ''bin''\<rparr>,
         20 := \<lparr>i_peer = Some 30, i_child = Some 21, i_kind = Ordinary, i_link = [],
                 i_name = Some ''dev''\<rparr>,
         30 := \<lparr>i_peer = None, i_child = None, i_kind = Mountpt, i_link = [],
                 i_name = Some ''mnt''\<rparr>,
         11 := \<lparr>i_peer = Some 12, i_child = None, i_kind = Ordinary, i_link = [],
                 i_name = Some ''ls''\<rparr>,
         12 := \<lparr>i_peer = None, i_child = None, i_kind = Ordinary, i_link = [],
                 i_name = Some ''sh''\<rparr>,
         21 := \<lparr>i_peer = None, i_child = None, i_kind = Ordinary, i_link = [],
                 i_name = Some ''null''\<rparr>),
      g_root_inode = Some 10\<rparr>"

definition tree_T3 :: fs where
  "tree_T3 =
     \<lparr>inodes = (\<lambda>_. blank)
        (10 := \<lparr>i_peer = Some 20, i_child = None, i_kind = Softlink, i_link = ''/b'',
                 i_name = Some ''a''\<rparr>,
         20 := \<lparr>i_peer = None, i_child = None, i_kind = Softlink, i_link = ''/a'',
                 i_name = Some ''b''\<rparr>),
      g_root_inode = Some 10\<rparr>"

text \<open>
  \<open>tree_high\<close> has two top-level nodes: \<^verbatim>\<open>a\<close> at 10, and after it at 20 a
  mount point whose name is the single byte 0x80.
\<close>

definition tree_high :: fs where
  "tree_high =
     \<lparr>inodes = (\<lambda>_. blank)
        (10 := \<lparr>i_peer = Some 20, i_child = None, i_kind = Ordinary, i_link = [],
                 i_name = Some ''a''\<rparr>,
         20 := \<lparr>i_peer = None, i_child = None, i_kind = Mountpt, i_link = [],
                 i_name = Some [CHR 0x80]\<rparr>),
      g_root_inode = Some 10\<rparr>"

definition signed_platform :: platform where
  "signed_platform = \<lparr>char_signed = True, SYMLOOP_MAX = 8\<rparr>"

definition unsigned_platform :: platform where
  "unsigned_platform = \<lparr>char_signed = False, SYMLOOP_MAX = 8\<rparr>"

definition no_cells :: outs where
  "no_cells = \<lparr>peer_cell = None, parent_cell = None, relpath_cell = None\<rparr>"

section \<open>Facts about strings and the comparator\<close>

text \<open>
  The loops are unfolded by the equations below, one byte at a time, instead of
  their defining equations.
\<close>

declare inode_compare_loop.simps [simp del] skip_segment.simps [simp del]

lemma NUL_neq_slash [simp]: "NUL \<noteq> CHR ''/''" "CHR ''/'' \<noteq> NUL"
  by (simp_all add: NUL_def)

lemma skip_segment_Nil [simp]: "skip_segment [] = []"
  by (simp add: skip_segment.simps)

lemma skip_segment_Cons [simp]:
  "skip_segment (c # cs) = (if c \<noteq> NUL \<and> c \<noteq> CHR ''/'' then skip_segment cs else c # cs)"
  by (subst skip_segment.simps) simp

lemma skip_segment_append:
  "segment_chars s \<Longrightarrow> seg_end r \<Longrightarrow> skip_segment (s @ r) = r"
  by (induction s) (auto simp: segment_chars_def seg_end_def skip_segment.simps [of r])

lemma skip_segment_dropWhile:
  "skip_segment p = dropWhile (\<lambda>c. c \<noteq> NUL \<and> c \<noteq> CHR ''/'') p"
  by (induction p) simp_all

lemma nextname_slash:
  "segment_chars s \<Longrightarrow> inode_nextname (s @ CHR ''/'' # rest) = rest"
  using skip_segment_append [of s "CHR ''/'' # rest"]
  by (simp add: inode_nextname_def seg_end_def)

lemma nextname_dropWhile:
  "inode_nextname p =
     (case dropWhile (\<lambda>c. c \<noteq> NUL \<and> c \<noteq> CHR ''/'') p of
        [] \<Rightarrow> []
      | c # r \<Rightarrow> if c = CHR ''/'' then r else c # r)"
proof -
  define d where "d = dropWhile (\<lambda>c. c \<noteq> NUL \<and> c \<noteq> CHR ''/'') p"
  have "d = [] \<or> hd d = NUL \<or> hd d = CHR ''/''"
    unfolding d_def using hd_dropWhile [of "\<lambda>c. c \<noteq> NUL \<and> c \<noteq> CHR ''/''" p] by blast
  then have "(if deref d \<noteq> NUL then tl d else d) =
      (case d of [] \<Rightarrow> [] | c # r \<Rightarrow> if c = CHR ''/'' then r else c # r)"
    by (cases d) auto
  then show ?thesis
    unfolding inode_nextname_def skip_segment_dropWhile Let_def d_def [symmetric] .
qed

lemma compare_loop_Nil [simp]:
  "inode_compare_loop sg f [] = (if deref f = NUL \<or> deref f = CHR ''/'' then 0 else 1)"
  by (subst inode_compare_loop.simps) simp

lemma compare_loop_Cons [simp]:
  "inode_compare_loop sg f (n # ns) =
     (if n = NUL then (if deref f = NUL \<or> deref f = CHR ''/'' then 0 else 1)
      else if deref f = NUL \<or> deref f = CHR ''/'' then - 1
      else if char_val sg (deref f) > char_val sg n then 1
      else if char_val sg (deref f) < char_val sg n then - 1
      else inode_compare_loop sg (tl f) ns)"
  by (subst inode_compare_loop.simps) simp

lemma char_val_inj [simp]: "char_val sg c = char_val sg d \<longleftrightarrow> c = d"
proof
  assume eq: "char_val sg c = char_val sg d"
  have "(of_char c :: int) < 256" "(of_char d :: int) < 256"
    "0 \<le> (of_char c :: int)" "0 \<le> (of_char d :: int)"
    by (simp_all add: of_char_def)
  with eq have "(of_char c :: int) = of_char d"
    by (auto simp: char_val_def split: if_splits)
  then show "c = d" by simp
qed simp

lemma compare_loop_prefix:
  "segment_chars p \<Longrightarrow> inode_compare_loop sg (p @ f) (p @ n) = inode_compare_loop sg f n"
  by (induction p) (auto simp: segment_chars_def)

lemma compare_loop_tail:
  "seg_end r \<Longrightarrow> seg_end r' \<Longrightarrow>
     inode_compare_loop sg (a @ r) x = inode_compare_loop sg (a @ r') x"
proof (induction a arbitrary: x)
  case Nil
  then show ?case by (cases x) (auto simp: seg_end_def)
next
  case (Cons c cs)
  then show ?case by (cases x) (auto simp: seg_end_def)
qed

lemma compare_loop_self:
  "segment_chars s \<Longrightarrow> seg_end r \<Longrightarrow> inode_compare_loop sg (s @ r) s = 0"
  by (induction s) (auto simp: segment_chars_def seg_end_def)

lemma compare_loop_antisym:
  "CHR ''/'' \<notin> set a \<Longrightarrow> CHR ''/'' \<notin> set b \<Longrightarrow> seg_end ra \<Longrightarrow> seg_end rb \<Longrightarrow>
     inode_compare_loop sg (a @ ra) b = - inode_compare_loop sg (b @ rb) a"
proof (induction a arbitrary: b)
  case Nil
  then show ?case by (cases b) (auto simp: seg_end_def)
next
  case (Cons c cs)
  then show ?case by (cases b) (auto simp: seg_end_def)
qed

lemma compare_loop_gt_trans:
  "0 < inode_compare_loop sg b a \<Longrightarrow> 0 < inode_compare_loop sg c b \<Longrightarrow>
     0 < inode_compare_loop sg c a"
proof (induction a arbitrary: b c)
  case Nil
  then show ?case by (cases b; cases c) (auto split: if_splits)
next
  case (Cons x xs)
  then show ?case by (cases b; cases c) (auto split: if_splits)
qed

lemma compare_loop_le_trans:
  "CHR ''/'' \<notin> set b \<Longrightarrow> inode_compare_loop sg a b \<le> 0 \<Longrightarrow>
     inode_compare_loop sg b c \<le> 0 \<Longrightarrow> inode_compare_loop sg a c \<le> 0"
proof (induction c arbitrary: a b)
  case Nil
  then show ?case by (cases a; cases b) (auto split: if_splits)
next
  case (Cons x xs)
  then show ?case by (cases a; cases b) (auto split: if_splits)
qed

lemma compare_loop_less_trans:
  "CHR ''/'' \<notin> set b \<Longrightarrow> inode_compare_loop sg a b < 0 \<Longrightarrow>
     inode_compare_loop sg b c < 0 \<Longrightarrow> inode_compare_loop sg a c < 0"
proof (induction c arbitrary: a b)
  case Nil
  then show ?case by (cases a; cases b) (auto split: if_splits)
next
  case (Cons x xs)
  then show ?case by (cases a; cases b) (auto split: if_splits)
qed

lemma inode_compare_gt_trans:
  "0 < inode_compare sg (i_name nb) na \<Longrightarrow> 0 < inode_compare sg (i_name nm) nb \<Longrightarrow>
     0 < inode_compare sg (i_name nm) na"
  by (auto simp: inode_compare_def split: option.splits intro: compare_loop_gt_trans)

section \<open>The segment scanner\<close>

text \<open>
  Claim C7. \<^verbatim>\<open>inode_nextname\<close> skips the bytes of the current segment up to the
  first NUL or \<^verbatim>\<open>/\<close> and then skips exactly one \<^verbatim>\<open>/\<close>. For a segment text
  \<open>s\<close>: after \<open>s\<close> and a \<^verbatim>\<open>/\<close> the result is what follows that \<^verbatim>\<open>/\<close>, the
  first character of the next segment; after \<open>s\<close> and a NUL the result points at
  the NUL, and so it does when the string ends after \<open>s\<close>; of two \<^verbatim>\<open>/\<close> in a row
  only the first is skipped, so the result starts with the second. For every
  string \<open>p\<close> the result is what is left of \<open>p\<close> after its leading bytes other
  than NUL and \<^verbatim>\<open>/\<close>, less one \<^verbatim>\<open>/\<close> when that is what comes first.
\<close>

theorem inode_nextname_skips:
  "segment_chars s \<Longrightarrow>
     inode_nextname (s @ CHR ''/'' # rest) = rest \<and>
     inode_nextname (s @ NUL # rest) = NUL # rest \<and>
     inode_nextname s = [] \<and>
     deref (inode_nextname (s @ NUL # rest)) = NUL \<and>
     deref (inode_nextname s) = NUL \<and>
     inode_nextname (s @ CHR ''/'' # CHR ''/'' # rest) = CHR ''/'' # rest \<and>
     inode_nextname p =
       (case dropWhile (\<lambda>c. c \<noteq> NUL \<and> c \<noteq> CHR ''/'') p of
          [] \<Rightarrow> []
        | c # r \<Rightarrow> if c = CHR ''/'' then r else c # r)"
proof -
  assume s: "segment_chars s"
  have "inode_nextname (s @ CHR ''/'' # rest) = rest"
    using s skip_segment_append [of s "CHR ''/'' # rest"]
    by (simp add: inode_nextname_def seg_end_def)
  moreover have "inode_nextname (s @ NUL # rest) = NUL # rest"
    using s skip_segment_append [of s "NUL # rest"]
    by (simp add: inode_nextname_def seg_end_def)
  moreover have "inode_nextname s = []"
    using s skip_segment_append [of s "[]"]
    by (simp add: inode_nextname_def seg_end_def)
  moreover have "inode_nextname (s @ CHR ''/'' # CHR ''/'' # rest) = CHR ''/'' # rest"
    using s skip_segment_append [of s "CHR ''/'' # CHR ''/'' # rest"]
    by (simp add: inode_nextname_def seg_end_def)
  ultimately show ?thesis
    by (simp only: nextname_dropWhile [of p] deref.simps simp_thms)
qed

theorem inode_nextname_skips_witness:
  "segment_chars ''bin'' \<and>
   inode_nextname ''bin/ls'' = ''ls'' \<and>
   inode_nextname ''bin'' = [] \<and>
   inode_nextname ''bin//ls'' = ''/ls''"
  using inode_nextname_skips [of "''bin''" "''ls''" "[]"]
  by (simp add: segment_chars_def NUL_def)

section \<open>The name comparator\<close>

text \<open>
  Claim C4. \<^verbatim>\<open>_inode_compare\<close> returns 1 when the name of the node is absent and
  -1 when the name is present and the segment pointer is absent. Otherwise let
  \<open>p\<close> be the bytes on which the two strings have walked in lockstep (equal,
  none of them NUL or \<^verbatim>\<open>/\<close>), \<open>f\<close> what is left of the segment and \<open>n\<close> what is
  left of the name. With NUL and \<^verbatim>\<open>/\<close> both ending the segment, the result is
  0 when both end there, 1 when only the name ends, and -1 when only the segment
  ends.
\<close>

theorem inode_compare_ends:
  "(i_name node = None \<longrightarrow> inode_compare sg fname node = 1) \<and>
   (i_name node \<noteq> None \<longrightarrow> inode_compare sg None node = - 1) \<and>
   (segment_chars p \<and> i_name node = Some (p @ n) \<and> deref n = NUL \<and> seg_end f \<longrightarrow>
      inode_compare sg (Some (p @ f)) node = 0) \<and>
   (segment_chars p \<and> i_name node = Some (p @ n) \<and> deref n = NUL \<and> \<not> seg_end f \<longrightarrow>
      inode_compare sg (Some (p @ f)) node = 1) \<and>
   (segment_chars p \<and> i_name node = Some (p @ n) \<and> deref n \<noteq> NUL \<and> seg_end f \<longrightarrow>
      inode_compare sg (Some (p @ f)) node = - 1)"
proof -
  have absent: "i_name node = None \<Longrightarrow> inode_compare sg fname node = 1"
    by (simp add: inode_compare_def)
  have no_segment: "i_name node \<noteq> None \<Longrightarrow> inode_compare sg None node = - 1"
    by (auto simp: inode_compare_def)
  have lockstep: "inode_compare sg (Some (p @ f)) node = inode_compare_loop sg f n"
    if "segment_chars p" and "i_name node = Some (p @ n)"
    using that by (simp add: inode_compare_def compare_loop_prefix)
  have both: "inode_compare_loop sg f n = 0" if "deref n = NUL" and "seg_end f"
    using that by (cases n) (simp_all add: seg_end_def)
  have name_first: "inode_compare_loop sg f n = 1" if "deref n = NUL" and "\<not> seg_end f"
    using that by (cases n) (simp_all add: seg_end_def)
  have segment_first: "inode_compare_loop sg f n = - 1" if "deref n \<noteq> NUL" and "seg_end f"
    using that by (cases n) (simp_all add: seg_end_def)
  show ?thesis
    using absent no_segment lockstep both name_first segment_first by simp
qed

theorem inode_compare_ends_witness:
  "inode_compare False (Some ''bin'') blank = 1 \<and>
   inode_compare False None (named ''bin'') = - 1 \<and>
   inode_compare False (Some ''bin/ls'') (named ''bin'') = 0 \<and>
   inode_compare False (Some ''bin'') (named ''bin'') = 0 \<and>
   inode_compare False (Some ''bins'') (named ''bin'') = 1 \<and>
   inode_compare False (Some ''bi/ls'') (named ''bin'') = - 1"
  using inode_compare_ends [of blank False "Some ''bin''"]
    inode_compare_ends [of "named ''bin''" False None "''bin''" "[]" "''/ls''"]
    inode_compare_ends [of "named ''bin''" False None "''bin''" "[]" "[]"]
    inode_compare_ends [of "named ''bin''" False None "''bin''" "[]" "''s''"]
    inode_compare_ends [of "named ''bin''" False None "''bi''" "''n''" "''/ls''"]
  by (simp add: blank_def named_def segment_chars_def seg_end_def NUL_def)

text \<open>
  Claim C2, as stated: at the first position where neither string has ended and
  the bytes differ, the bytes are compared as unsigned values, and a segment byte
  of 0x80 or more against an ASCII byte of the name gives 1. The source compares
  plain \<^verbatim>\<open>char\<close> values. Where plain \<^verbatim>\<open>char\<close> is signed, the segment byte 0x80
  is -128 and compares less than \<^verbatim>\<open>a\<close>: the result is -1.
\<close>

theorem inode_compare_signed_char_counterexample:
  "inode_compare True (Some [CHR 0x80]) (named ''a'') = - 1"
  by (simp add: inode_compare_def named_def char_val_def NUL_def)

text \<open>
  Claim C2, amended. At that position the bytes are compared as plain \<^verbatim>\<open>char\<close>
  values, and the result is 1 or -1 according to that comparison. A segment byte
  of 0x80 or more against an ASCII byte of the name gives 1 where plain
  \<^verbatim>\<open>char\<close> is unsigned and -1 where it is signed.
\<close>

theorem inode_compare_differing_bytes:
  assumes "segment_chars p" and "i_name node = Some (p @ n)"
    and "deref n \<noteq> NUL" and "\<not> seg_end f" and "deref f \<noteq> deref n"
  shows "inode_compare sg (Some (p @ f)) node =
           (if char_val sg (deref n) < char_val sg (deref f) then 1 else - 1) \<and>
         (128 \<le> (of_char (deref f) :: int) \<and> (of_char (deref n) :: int) < 128 \<longrightarrow>
            inode_compare sg (Some (p @ f)) node = (if sg then - 1 else 1))"
proof -
  from assms(3) obtain c cs where n: "n = c # cs" and c: "c \<noteq> NUL"
    by (cases n) auto
  have "inode_compare sg (Some (p @ f)) node = inode_compare_loop sg f n"
    using assms(1,2) by (simp add: inode_compare_def compare_loop_prefix)
  also have "\<dots> = (if char_val sg (deref n) < char_val sg (deref f) then 1 else - 1)"
    using assms(4,5) c
    by (auto simp: n seg_end_def dest: order.antisym [of "char_val sg (deref f)" "char_val sg c"])
  finally have first: "inode_compare sg (Some (p @ f)) node =
      (if char_val sg (deref n) < char_val sg (deref f) then 1 else - 1)" .
  have bounds: "(of_char (deref f) :: int) < 256" "0 \<le> (of_char (deref n) :: int)"
    by (simp_all add: of_char_def)
  have second: "inode_compare sg (Some (p @ f)) node = (if sg then - 1 else 1)"
    if "128 \<le> (of_char (deref f) :: int)" and "(of_char (deref n) :: int) < 128"
    using that bounds unfolding first by (simp add: char_val_def)
  from first second show ?thesis by simp
qed

theorem inode_compare_differing_bytes_witness:
  "segment_chars ''ab'' \<and>
   inode_compare False (Some (''ab'' @ [CHR 0x80])) (named ''abc'') = 1 \<and>
   inode_compare True (Some (''ab'' @ [CHR 0x80])) (named ''abc'') = - 1"
  using inode_compare_differing_bytes [of "''ab''" "named ''abc''" "''c''" "[CHR 0x80]" False]
    inode_compare_differing_bytes [of "''ab''" "named ''abc''" "''c''" "[CHR 0x80]" True]
  by (simp add: segment_chars_def named_def seg_end_def NUL_def)

text \<open>
  Claim C6, as stated: for every pair of non-absent strings, comparing \<open>a\<close> with
  a node named \<open>b\<close> gives the negative of comparing \<open>b\<close> with a node named \<open>a\<close>,
  and the induced order is transitive. A \<^verbatim>\<open>/\<close> ends the segment but not the
  name of a node: \<^verbatim>\<open>x/y\<close> against the name \<^verbatim>\<open>x\<close> is a match while \<^verbatim>\<open>x\<close>
  against the name \<^verbatim>\<open>x/y\<close> is less; and \<^verbatim>\<open>x!\<close> is less than \<^verbatim>\<open>x/y\<close>, which is
  less than \<^verbatim>\<open>x\<close> followed by a space, which is less than \<^verbatim>\<open>x!\<close>.
\<close>

theorem inode_compare_order_counterexample:
  "inode_compare False (Some ''x/y'') (named ''x'') = 0 \<and>
   inode_compare False (Some ''x'') (named ''x/y'') = - 1 \<and>
   inode_compare False (Some ''x!'') (named ''x/y'') = - 1 \<and>
   inode_compare False (Some ''x/y'') (named ''x '') = - 1 \<and>
   inode_compare False (Some ''x!'') (named ''x '') = 1"
  by (simp add: inode_compare_def named_def char_val_def NUL_def)

text \<open>
  Claim C6, amended. For strings \<open>a\<close> and \<open>b\<close> without \<^verbatim>\<open>/\<close>, comparing \<open>a\<close>
  with a node named \<open>b\<close> gives the negative of comparing \<open>b\<close> with a node named
  \<open>a\<close>, whether the segment ends at a NUL or at a \<^verbatim>\<open>/\<close> followed by more path
  (\<open>ra\<close>, \<open>rb\<close>); and the order is transitive, in its weak and in its strict
  form, through every middle string \<open>b\<close> without \<^verbatim>\<open>/\<close>.
\<close>

theorem inode_compare_order:
  assumes "CHR ''/'' \<notin> set a" and "CHR ''/'' \<notin> set b"
    and "i_name na = Some a" and "i_name nb = Some b" and "i_name nc = Some c"
    and "seg_end ra" and "seg_end rb"
  shows "inode_compare sg (Some (a @ ra)) nb = - inode_compare sg (Some (b @ rb)) na \<and>
         (inode_compare sg (Some (a @ ra)) nb \<le> 0 \<and> inode_compare sg (Some (b @ rb)) nc \<le> 0 \<longrightarrow>
            inode_compare sg (Some (a @ ra)) nc \<le> 0) \<and>
         (inode_compare sg (Some (a @ ra)) nb < 0 \<and> inode_compare sg (Some (b @ rb)) nc < 0 \<longrightarrow>
            inode_compare sg (Some (a @ ra)) nc < 0)"
proof -
  have tails: "seg_end []"
    by (simp add: seg_end_def)
  have a: "inode_compare_loop sg (a @ ra) x = inode_compare_loop sg a x" for x
    using compare_loop_tail [OF assms(6) tails, of sg a x] by simp
  have b: "inode_compare_loop sg (b @ rb) x = inode_compare_loop sg b x" for x
    using compare_loop_tail [OF assms(7) tails, of sg b x] by simp
  have "inode_compare_loop sg (a @ ra) b = - inode_compare_loop sg (b @ rb) a"
    using assms(1,2,6,7) by (rule compare_loop_antisym)
  moreover have "inode_compare_loop sg (a @ ra) c \<le> 0"
    if "inode_compare_loop sg (a @ ra) b \<le> 0" and "inode_compare_loop sg (b @ rb) c \<le> 0"
    using that compare_loop_le_trans [OF assms(2), of sg a c] by (simp add: a b)
  moreover have "inode_compare_loop sg (a @ ra) c < 0"
    if "inode_compare_loop sg (a @ ra) b < 0" and "inode_compare_loop sg (b @ rb) c < 0"
    using that compare_loop_less_trans [OF assms(2), of sg a c] by (simp add: a b)
  ultimately show ?thesis
    using assms(3,4,5) by (simp add: inode_compare_def)
qed

theorem inode_compare_order_witness:
  "inode_compare False (Some ''bin/ls'') (named ''dev'') = - 1 \<and>
   inode_compare False (Some ''dev/null'') (named ''bin'') = 1 \<and>
   inode_compare False (Some ''dev/null'') (named ''mnt'') = - 1 \<and>
   inode_compare False (Some ''bin/ls'') (named ''mnt'') < 0"
  using inode_compare_order [of "''bin''" "''dev''" "named ''bin''" "named ''dev''"
      "named ''mnt''" "''mnt''" "''/ls''" "''/null''" False]
  by (simp add: named_def seg_end_def inode_compare_def char_val_def NUL_def)

section \<open>Initialising a condition variable attribute\<close>

text \<open>
  Claim C10. With a null \<^verbatim>\<open>attr\<close>, \<^verbatim>\<open>pthread_condattr_init\<close> returns
  \<^verbatim>\<open>EINVAL\<close> and leaves the memory as it was; with \<^verbatim>\<open>attr\<close> pointing at a
  cell, it stores 0 there, changes no other cell and returns \<^verbatim>\<open>OK\<close>, which is
  0. Every call is one of the two.
\<close>

theorem pthread_condattr_init_outcomes:
  "pthread_condattr_init mem None = (EINVAL, mem) \<and>
   pthread_condattr_init mem (Some p) = (OK, mem(p := 0)) \<and>
   OK = 0 \<and>
   ((attr = None \<and> pthread_condattr_init mem attr = (EINVAL, mem)) \<or>
    (\<exists>q. attr = Some q \<and> pthread_condattr_init mem attr = (OK, mem(q := 0))))"
  by (cases attr) (simp_all add: pthread_condattr_init_def OK_def)

section \<open>Facts about the walkers\<close>

declare search_walk.simps [simp del] inode_search_nofollow.simps [simp del]
  inode_linktarget_loop.simps [simp del]

lemmas walk_simps =
  search_walk.simps inode_search_nofollow.simps inode_linktarget_loop.simps

lemma linktarget_loop_plain:
  "\<not> INODE_IS_SOFTLINK (inodes t a) \<Longrightarrow>
     inode_linktarget_loop pf t n (Some a) count peer parent relpath out = Returns (Some a, out)"
  by (cases n) (simp_all add: walk_simps)

lemma T1_fields:
  "g_root_inode tree_T1 = Some 10"
  "inodes tree_T1 10 =
     \<lparr>i_peer = Some 20, i_child = Some 11, i_kind = Ordinary, i_link = [], i_name = Some ''bin''\<rparr>"
  "inodes tree_T1 20 =
     \<lparr>i_peer = Some 30, i_child = Some 21, i_kind = Ordinary, i_link = [], i_name = Some ''dev''\<rparr>"
  "inodes tree_T1 30 =
     \<lparr>i_peer = None, i_child = None, i_kind = Mountpt, i_link = [], i_name = Some ''mnt''\<rparr>"
  "inodes tree_T1 11 =
     \<lparr>i_peer = Some 12, i_child = None, i_kind = Ordinary, i_link = [], i_name = Some ''ls''\<rparr>"
  "inodes tree_T1 12 =
     \<lparr>i_peer = None, i_child = None, i_kind = Ordinary, i_link = [], i_name = Some ''sh''\<rparr>"
  by (simp_all add: tree_T1_def)

lemma T1_sorted: "peers_sorted sg tree_T1"
  by (simp add: peers_sorted_def tree_T1_def blank_def inode_compare_def char_val_def NUL_def)

lemma T1_no_softlink: "\<not> INODE_IS_SOFTLINK (inodes tree_T1 a)"
  by (simp add: tree_T1_def blank_def INODE_IS_SOFTLINK_def)

lemma T1_mnt: "resolves_by_segments tree_T1 (g_root_inode tree_T1) [''mnt''] 30"
proof -
  have "on_peers tree_T1 (Some 30) 30"
    by (rule on_peers.here)
  then have "on_peers tree_T1 (Some 20) 30"
    by (intro on_peers.further) (simp add: T1_fields)
  then have "on_peers tree_T1 (Some 10) 30"
    by (intro on_peers.further) (simp add: T1_fields)
  then show ?thesis
    unfolding T1_fields by (rule resolves_by_segments.final) (simp add: T1_fields)
qed

lemma T1_bin_sh:
  "inode_search_nofollow unsigned_platform tree_T1 (Suc (Suc (Suc (Suc 0)))) ''/bin/sh''
     True True True no_cells =
   Returns (Some 12, [], \<lparr>peer_cell = Some 11, parent_cell = Some 10, relpath_cell = Some []\<rparr>)"
  by (simp add: walk_simps T1_fields inode_compare_def char_val_def NUL_def
      unsigned_platform_def inode_nextname_def INODE_IS_MOUNTPT_def INODE_IS_SOFTLINK_def
      set_relpath_def set_peer_def set_parent_def no_cells_def)

lemma high_fields:
  "g_root_inode tree_high = Some 10"
  "inodes tree_high 10 =
     \<lparr>i_peer = Some 20, i_child = None, i_kind = Ordinary, i_link = [], i_name = Some ''a''\<rparr>"
  "inodes tree_high 20 =
     \<lparr>i_peer = None, i_child = None, i_kind = Mountpt, i_link = [], i_name = Some [CHR 0x80]\<rparr>"
  by (simp_all add: tree_high_def)

lemma high_sorted_unsigned: "peers_sorted False tree_high"
  by (simp add: peers_sorted_def tree_high_def blank_def inode_compare_def char_val_def NUL_def)

lemma high_mount: "resolves_by_segments tree_high (g_root_inode tree_high) [[CHR 0x80]] 20"
proof -
  have "on_peers tree_high (Some 20) 20"
    by (rule on_peers.here)
  then have "on_peers tree_high (Some 10) 20"
    by (intro on_peers.further) (simp add: high_fields)
  then show ?thesis
    unfolding high_fields by (rule resolves_by_segments.final) (simp add: high_fields)
qed

lemma T3_fields:
  "g_root_inode tree_T3 = Some 10"
  "inodes tree_T3 10 =
     \<lparr>i_peer = Some 20, i_child = None, i_kind = Softlink, i_link = ''/b'', i_name = Some ''a''\<rparr>"
  "inodes tree_T3 20 =
     \<lparr>i_peer = None, i_child = None, i_kind = Softlink, i_link = ''/a'', i_name = Some ''b''\<rparr>"
  by (simp_all add: tree_T3_def)

text \<open>
  On \<open>T\<^sub>3\<close> the lookups of both link targets return: \<^verbatim>\<open>/b\<close> after two loop
  bodies, \<^verbatim>\<open>/a\<close> after one.
\<close>

lemma T3_walk_b:
  "search_walk pf tree_T3 n ''b'' (Some 10) left up relpath out =
     (if n < 2 then OutOfFuel
      else Returns (Some 20, [], Some 10, up, set_relpath relpath [] out))"
proof (cases n)
  case 0
  then show ?thesis by (simp add: walk_simps)
next
  case (Suc m)
  then show ?thesis
    by (cases m)
       (simp_all add: walk_simps T3_fields inode_compare_def char_val_def NUL_def
          inode_nextname_def INODE_IS_MOUNTPT_def)
qed

lemma T3_walk_a:
  "search_walk pf tree_T3 n ''a'' (Some 10) left up relpath out =
     (if n = 0 then OutOfFuel
      else Returns (Some 10, [], left, up, set_relpath relpath [] out))"
  by (cases n)
     (simp_all add: walk_simps T3_fields inode_compare_def char_val_def NUL_def
        inode_nextname_def INODE_IS_MOUNTPT_def)

text \<open>
  The loop of \<^verbatim>\<open>inode_linktarget\<close> never leaves the cycle: each lookup returns
  the other soft link, so \<^verbatim>\<open>node\<close> is never \<^verbatim>\<open>NULL\<close>, the counter is never
  incremented, and no amount of fuel is enough.
\<close>

lemma T3_link_loop:
  "inode_linktarget_loop pf tree_T3 n (Some 10) count peer parent relpath out = OutOfFuel \<and>
   inode_linktarget_loop pf tree_T3 n (Some 20) count peer parent relpath out = OutOfFuel"
proof (induction n arbitrary: count out)
  case 0
  show ?case by (simp add: walk_simps T3_fields INODE_IS_SOFTLINK_def)
next
  case (Suc n)
  have a: "inode_linktarget_loop pf tree_T3 (Suc n) (Some 10) count peer parent relpath out =
      OutOfFuel"
    using Suc
    by (simp add: inode_linktarget_loop.simps inode_search_nofollow.simps T3_walk_b
          T3_fields INODE_IS_SOFTLINK_def)
  have b: "inode_linktarget_loop pf tree_T3 (Suc n) (Some 20) count peer parent relpath out =
      OutOfFuel"
    using Suc
    by (simp add: inode_linktarget_loop.simps inode_search_nofollow.simps T3_walk_a
          T3_fields INODE_IS_SOFTLINK_def)
  from a b show ?case by simp
qed

subsection \<open>Fuel\<close>

text \<open>
  Fuel decides only whether a call returns: a call that does not run out of fuel
  has the same outcome with more fuel.
\<close>

lemma fuel_step:
  "(\<forall>name node left up relpath out.
      search_walk pf t n name node left up relpath out \<noteq> OutOfFuel \<longrightarrow>
      search_walk pf t (Suc n) name node left up relpath out =
        search_walk pf t n name node left up relpath out) \<and>
   (\<forall>path peer parent relpath out.
      inode_search_nofollow pf t n path peer parent relpath out \<noteq> OutOfFuel \<longrightarrow>
      inode_search_nofollow pf t (Suc n) path peer parent relpath out =
        inode_search_nofollow pf t n path peer parent relpath out) \<and>
   (\<forall>node count peer parent relpath out.
      inode_linktarget_loop pf t n node count peer parent relpath out \<noteq> OutOfFuel \<longrightarrow>
      inode_linktarget_loop pf t (Suc n) node count peer parent relpath out =
        inode_linktarget_loop pf t n node count peer parent relpath out)"
proof (induction n)
  case 0
  have w: "search_walk pf t 0 name node left up relpath out \<noteq> OutOfFuel \<longrightarrow>
      search_walk pf t (Suc 0) name node left up relpath out =
        search_walk pf t 0 name node left up relpath out" for name node left up relpath out
    by (cases node) (simp_all add: walk_simps)
  have l: "inode_linktarget_loop pf t 0 node count peer parent relpath out \<noteq> OutOfFuel \<longrightarrow>
      inode_linktarget_loop pf t (Suc 0) node count peer parent relpath out =
        inode_linktarget_loop pf t 0 node count peer parent relpath out"
    for node count peer parent relpath out
    by (cases node) (simp_all add: walk_simps)
  have s: "inode_search_nofollow pf t 0 path peer parent relpath out \<noteq> OutOfFuel \<longrightarrow>
      inode_search_nofollow pf t (Suc 0) path peer parent relpath out =
        inode_search_nofollow pf t 0 path peer parent relpath out"
    for path peer parent relpath out
    using w by (auto simp: inode_search_nofollow.simps split: list.splits outcome.splits)
  from w s l show ?case by blast
next
  case (Suc n)
  then have ihw: "\<And>name node left up relpath out.
      search_walk pf t n name node left up relpath out \<noteq> OutOfFuel \<Longrightarrow>
      search_walk pf t (Suc n) name node left up relpath out =
        search_walk pf t n name node left up relpath out"
    and ihs: "\<And>path peer parent relpath out.
      inode_search_nofollow pf t n path peer parent relpath out \<noteq> OutOfFuel \<Longrightarrow>
      inode_search_nofollow pf t (Suc n) path peer parent relpath out =
        inode_search_nofollow pf t n path peer parent relpath out"
    and ihl: "\<And>node count peer parent relpath out.
      inode_linktarget_loop pf t n node count peer parent relpath out \<noteq> OutOfFuel \<Longrightarrow>
      inode_linktarget_loop pf t (Suc n) node count peer parent relpath out =
        inode_linktarget_loop pf t n node count peer parent relpath out"
    by blast+
  have w: "search_walk pf t (Suc n) name node left up relpath out \<noteq> OutOfFuel \<longrightarrow>
      search_walk pf t (Suc (Suc n)) name node left up relpath out =
        search_walk pf t (Suc n) name node left up relpath out" for name node left up relpath out
  proof (cases node)
    case None
    then show ?thesis by (simp add: walk_simps)
  next
    case (Some a)
    show ?thesis
      unfolding Some search_walk.simps(3) [of pf t "Suc n"] search_walk.simps(3) [of pf t n]
      by (auto simp: Let_def ihw ihl split: outcome.splits option.splits)
  qed
  have l: "inode_linktarget_loop pf t (Suc n) node count peer parent relpath out \<noteq> OutOfFuel \<longrightarrow>
      inode_linktarget_loop pf t (Suc (Suc n)) node count peer parent relpath out =
        inode_linktarget_loop pf t (Suc n) node count peer parent relpath out"
    for node count peer parent relpath out
  proof (cases node)
    case None
    then show ?thesis by (simp add: walk_simps)
  next
    case (Some a)
    show ?thesis
      unfolding Some inode_linktarget_loop.simps(3) [of pf t "Suc n"]
        inode_linktarget_loop.simps(3) [of pf t n]
      by (auto simp: ihs ihl split: outcome.splits)
  qed
  have s: "inode_search_nofollow pf t (Suc n) path peer parent relpath out \<noteq> OutOfFuel \<longrightarrow>
      inode_search_nofollow pf t (Suc (Suc n)) path peer parent relpath out =
        inode_search_nofollow pf t (Suc n) path peer parent relpath out"
    for path peer parent relpath out
    using w by (auto simp: inode_search_nofollow.simps split: list.splits outcome.splits)
  from w s l show ?case by blast
qed

lemma search_nofollow_more_fuel:
  "inode_search_nofollow pf t n path peer parent relpath out = Returns r \<Longrightarrow>
     inode_search_nofollow pf t (n + k) path peer parent relpath out = Returns r"
  by (induction k) (simp_all add: fuel_step)

lemma linktarget_loop_more_fuel:
  "inode_linktarget_loop pf t n node count peer parent relpath out = Returns r \<Longrightarrow>
     inode_linktarget_loop pf t (n + k) node count peer parent relpath out = Returns r"
  by (induction k) (simp_all add: fuel_step)

lemma search_more_fuel:
  "inode_search pf t n path peer parent relpath out = Returns r \<Longrightarrow>
     inode_search pf t (n + k) path peer parent relpath out = Returns r"
  by (auto simp: inode_search_def inode_linktarget_def search_nofollow_more_fuel
        linktarget_loop_more_fuel split: outcome.splits option.splits if_splits)

subsection \<open>Walking a sorted sibling list\<close>

lemma before_greater:
  assumes "peers_sorted sg t" and "on_peers t x m"
  shows "i_peer (inodes t a) = x \<Longrightarrow>
           0 < inode_compare sg (i_name (inodes t m)) (inodes t a)"
  using assms(2)
proof (induction arbitrary: a)
  case (here b)
  with assms(1) show ?case by (simp add: peers_sorted_def)
next
  case (further b m)
  from further.prems assms(1)
  have "0 < inode_compare sg (i_name (inodes t b)) (inodes t a)"
    by (simp add: peers_sorted_def)
  moreover have "0 < inode_compare sg (i_name (inodes t m)) (inodes t b)"
    by (rule further.IH) simp
  ultimately show ?case by (rule inode_compare_gt_trans)
qed

text \<open>
  With \<open>k\<close> loop bodies the walk moves from the head of a sorted sibling list to
  the node that carries the name of the current segment.
\<close>

lemma scan_peers:
  assumes "peers_sorted (char_signed pf) t" and "on_peers t first m"
    and "i_name (inodes t m) = Some s" and "segment_chars s" and "seg_end r"
  shows "\<exists>k left'. \<forall>n. search_walk pf t (k + n) (s @ r) first left up relpath out =
           search_walk pf t n (s @ r) (Some m) left' up relpath out"
  using assms(2,3)
proof (induction arbitrary: left)
  case (here a)
  have "\<forall>n. search_walk pf t (0 + n) (s @ r) (Some a) left up relpath out =
           search_walk pf t n (s @ r) (Some a) left up relpath out"
    by simp
  then show ?case by blast
next
  case (further a m)
  from further.IH [OF further.prems, of "Some a"] obtain k left' where
    ih: "\<forall>n. search_walk pf t (k + n) (s @ r) (i_peer (inodes t a)) (Some a) up relpath out =
           search_walk pf t n (s @ r) (Some m) left' up relpath out"
    by blast
  have "0 < inode_compare (char_signed pf) (i_name (inodes t m)) (inodes t a)"
    using assms(1) further.hyps by (rule before_greater) simp
  then have gt: "0 < inode_compare (char_signed pf) (Some (s @ r)) (inodes t a)"
    using further.prems assms(5) compare_loop_tail [of r "[]" _ s]
    by (simp add: inode_compare_def seg_end_def split: option.splits)
  have "\<forall>n. search_walk pf t (Suc k + n) (s @ r) (Some a) left up relpath out =
           search_walk pf t n (s @ r) (Some m) left' up relpath out"
    using gt ih by (simp add: search_walk.simps)
  then show ?case by blast
qed

lemma resolves_nonempty: "resolves_by_segments t first segs m \<Longrightarrow> segs \<noteq> []"
  by (induction rule: resolves_by_segments.induct) simp_all

lemma path_of_Cons: "path_of (s # ss) = CHR ''/'' # s @ path_of ss"
  by (simp add: path_of_def)

lemma deref_path_of: "deref (path_of ss @ CHR ''/'' # rest) = CHR ''/''"
  by (cases ss) (simp_all add: path_of_Cons, simp add: path_of_def)

lemma deref_segments:
  "\<forall>s\<in>set ss. segment_chars s \<Longrightarrow> deref (tl (path_of ss) @ CHR ''/'' # rest) \<noteq> NUL"
proof (cases ss)
  case Nil
  then show ?thesis by (simp add: path_of_def)
next
  case (Cons s ss')
  assume "\<forall>s\<in>set ss. segment_chars s"
  with Cons have "segment_chars s" by simp
  then show ?thesis using Cons deref_path_of [of ss' rest]
    by (cases s) (simp_all add: path_of_Cons segment_chars_def)
qed

lemma walk_segments:
  assumes "peers_sorted (char_signed pf) t" and "resolves_by_segments t first segs m"
    and "INODE_IS_MOUNTPT (inodes t m)" and "\<forall>s\<in>set segs. segment_chars s"
  shows "\<exists>k left' up'. \<forall>n.
           search_walk pf t (k + n) (tl (path_of segs) @ CHR ''/'' # rest) first left up relpath out =
           Returns (Some m, rest, left', up', set_relpath relpath rest out)"
  using assms(2,3,4)
proof (induction arbitrary: left up)
  case (final first m s)
  let ?name = "s @ CHR ''/'' # rest"
  from final.prems have s: "segment_chars s" and mp: "INODE_IS_MOUNTPT (inodes t m)"
    by simp_all
  from scan_peers [OF assms(1) final.hyps s, of "CHR ''/'' # rest" left up relpath out]
  obtain k left' where
    scan: "\<forall>n. search_walk pf t (k + n) ?name first left up relpath out =
             search_walk pf t n ?name (Some m) left' up relpath out"
    by (auto simp: seg_end_def)
  have at_m: "search_walk pf t (Suc n) ?name (Some m) left' up relpath out =
           Returns (Some m, rest, left', up, set_relpath relpath rest out)" for n
    using s final.hyps(2) mp compare_loop_self [of s "CHR ''/'' # rest"] nextname_slash [of s rest]
    by (simp add: search_walk.simps inode_compare_def seg_end_def)
  have path: "tl (path_of [s]) @ CHR ''/'' # rest = ?name"
    by (simp add: path_of_def)
  have "search_walk pf t (Suc k + n) ?name first left up relpath out =
           Returns (Some m, rest, left', up, set_relpath relpath rest out)" for n
  proof -
    have "search_walk pf t (Suc k + n) ?name first left up relpath out =
            search_walk pf t (k + Suc n) ?name first left up relpath out"
      by simp
    also have "\<dots> = search_walk pf t (Suc n) ?name (Some m) left' up relpath out"
      using scan by blast
    also have "\<dots> = Returns (Some m, rest, left', up, set_relpath relpath rest out)"
      by (rule at_m)
    finally show ?thesis .
  qed
  then show ?case unfolding path by blast
next
  case (descend first d s ss m)
  let ?rest = "tl (path_of ss) @ CHR ''/'' # rest"
  let ?name = "s @ CHR ''/'' # ?rest"
  from descend.prems have s: "segment_chars s" and ss: "\<forall>s\<in>set ss. segment_chars s"
    and mp: "INODE_IS_MOUNTPT (inodes t m)"
    by simp_all
  from descend.hyps(4) have "ss \<noteq> []" by (rule resolves_nonempty)
  then have path: "tl (path_of (s # ss)) @ CHR ''/'' # rest = ?name"
    by (cases ss) (simp_all add: path_of_Cons)
  from scan_peers [OF assms(1) descend.hyps(1,2) s, of "CHR ''/'' # ?rest" left up relpath out]
  obtain k left' where
    scan: "\<forall>n. search_walk pf t (k + n) ?name first left up relpath out =
             search_walk pf t n ?name (Some d) left' up relpath out"
    by (auto simp: seg_end_def)
  from descend.IH [OF mp ss, of None "Some d"] obtain j left'' up'' where
    below: "\<forall>n. search_walk pf t (j + n) ?rest (i_child (inodes t d)) None (Some d) relpath out =
             Returns (Some m, rest, left'', up'', set_relpath relpath rest out)"
    by blast
  have at_d: "search_walk pf t (Suc n) ?name (Some d) left' up relpath out =
           search_walk pf t n ?rest (i_child (inodes t d)) None (Some d) relpath out" for n
    using s descend.hyps(2,3) compare_loop_self [of s "CHR ''/'' # ?rest"]
      nextname_slash [of s ?rest] deref_segments [OF ss, of rest]
    by (simp add: search_walk.simps inode_compare_def seg_end_def INODE_IS_MOUNTPT_def
          linktarget_loop_plain INODE_IS_SOFTLINK_def)
  have "search_walk pf t (k + Suc j + n) ?name first left up relpath out =
           Returns (Some m, rest, left'', up'', set_relpath relpath rest out)" for n
  proof -
    have "search_walk pf t (k + Suc j + n) ?name first left up relpath out =
            search_walk pf t (k + Suc (j + n)) ?name first left up relpath out"
      by (simp add: add.assoc)
    also have "\<dots> = search_walk pf t (Suc (j + n)) ?name (Some d) left' up relpath out"
      using scan by blast
    also have "\<dots> =
        search_walk pf t (j + n) ?rest (i_child (inodes t d)) None (Some d) relpath out"
      by (rule at_d)
    also have "\<dots> = Returns (Some m, rest, left'', up'', set_relpath relpath rest out)"
      using below by simp
    finally show ?thesis .
  qed
  then show ?case unfolding path by blast
qed

section \<open>The link resolver\<close>

text \<open>
  Claim C9. For a present node that is not a soft link, \<^verbatim>\<open>inode_linktarget\<close>
  returns that node, whatever the fuel, and the cells behind \<^verbatim>\<open>peer\<close>,
  \<^verbatim>\<open>parent\<close> and \<^verbatim>\<open>relpath\<close> are after the call what they were before it.
\<close>

theorem linktarget_identity:
  "\<not> INODE_IS_SOFTLINK (inodes t a) \<Longrightarrow>
     inode_linktarget pf t n (Some a) peer parent relpath out = Returns (Some a, out)"
  by (simp add: inode_linktarget_def linktarget_loop_plain)

theorem linktarget_identity_witness:
  "\<not> INODE_IS_SOFTLINK (inodes tree_T1 30) \<and>
   inode_linktarget unsigned_platform tree_T1 0 (Some 30) True True True no_cells =
     Returns (Some 30, no_cells)"
  using linktarget_identity [of tree_T1 30 unsigned_platform 0 True True True no_cells]
  by (simp add: T1_no_softlink)

text \<open>
  Claim C1: \<^verbatim>\<open>inode_linktarget\<close> terminates on every finite tree, and on the
  cycle \<open>T\<^sub>3\<close> the search for \<^verbatim>\<open>/a\<close> returns absent in bounded time. The source
  says of its loop that an infinite loop is avoided only by the loop count, but
  it increments the count only when a lookup returns \<^verbatim>\<open>NULL\<close>, which ends the
  loop anyway. On \<open>T\<^sub>3\<close> every lookup succeeds: \<^verbatim>\<open>inode_search_nofollow\<close>
  returns the soft link \<^verbatim>\<open>a\<close> after one loop body, and \<^verbatim>\<open>inode_search\<close> then
  runs out of fuel for every amount of fuel, that is, it does not return.
\<close>

theorem cyclic_softlinks_diverge:
  "inode_search_nofollow pf tree_T3 (Suc n) ''/a'' peer parent relpath out =
     Returns (Some 10, [],
       set_parent parent None (set_peer peer None (set_relpath relpath [] out))) \<and>
   inode_search pf tree_T3 n ''/a'' peer parent relpath out = OutOfFuel"
  by (cases n)
     (simp_all add: inode_search_def inode_linktarget_def inode_search_nofollow.simps
        T3_fields INODE_IS_SOFTLINK_def T3_walk_a T3_link_loop)

section \<open>The tree walkers\<close>

text \<open>
  Claim C5. On a tree without soft link nodes, \<^verbatim>\<open>inode_search\<close> and
  \<^verbatim>\<open>inode_search_nofollow\<close> agree for every path, every choice of
  out-pointers and every amount of fuel: the same node or none, the same path
  cursor, the same cells; and one returns exactly when the other does. Mount
  points play no part in it, so the claim's trees, which have none, are covered.
\<close>

theorem search_eq_nofollow:
  "\<forall>a. \<not> INODE_IS_SOFTLINK (inodes t a) \<Longrightarrow>
     inode_search pf t n path peer parent relpath out =
     inode_search_nofollow pf t n path peer parent relpath out"
  by (simp add: inode_search_def split: outcome.splits option.splits prod.splits)

theorem search_eq_nofollow_witness:
  "(\<forall>a. \<not> INODE_IS_SOFTLINK (inodes tree_T1 a)) \<and>
   inode_search unsigned_platform tree_T1 (Suc (Suc (Suc (Suc 0)))) ''/bin/sh''
     True True True no_cells =
   Returns (Some 12, [], \<lparr>peer_cell = Some 11, parent_cell = Some 10, relpath_cell = Some []\<rparr>)"
  using search_eq_nofollow [of tree_T1 unsigned_platform "Suc (Suc (Suc (Suc 0)))" "''/bin/sh''"
      True True True no_cells]
  by (simp add: T1_no_softlink T1_bin_sh)

text \<open>
  Claim C8, as stated: on the path \<^verbatim>\<open>/\<close> the walker never enters its loop and
  returns no node. The loop is \<^verbatim>\<open>while (node != NULL)\<close> with \<^verbatim>\<open>node\<close>
  starting at \<^verbatim>\<open>g_root_inode\<close>. On \<open>T\<^sub>1\<close> the root is present: without a loop
  body the walk cannot finish, and with one it returns no node.
\<close>

theorem root_lookup_counterexample:
  "g_root_inode tree_T1 \<noteq> None \<and>
   inode_search_nofollow unsigned_platform tree_T1 0 ''/'' True True True no_cells = OutOfFuel \<and>
   inode_search_nofollow unsigned_platform tree_T1 (Suc 0) ''/'' True True True no_cells =
     Returns (None, [], no_cells)"
  by (simp add: walk_simps T1_fields inode_compare_def NUL_def set_peer_def set_parent_def
      no_cells_def)

text \<open>
  Claim C8, amended. When the root node, if there is one, has a non-empty name,
  \<^verbatim>\<open>inode_search_nofollow\<close> on the path \<^verbatim>\<open>/\<close> returns no node, with the path
  cursor at the end of the string and \<^verbatim>\<open>NULL\<close> for peer and parent: after the
  leading \<^verbatim>\<open>/\<close> the segment is empty; without a root the loop is not entered,
  and with a root the loop is entered and left in its first body, where the
  empty segment compares less than the name.
\<close>

theorem root_lookup:
  assumes "\<forall>a. g_root_inode t = Some a \<longrightarrow>
             (\<exists>s. i_name (inodes t a) = Some s \<and> deref s \<noteq> NUL)"
  shows "inode_search_nofollow pf t (Suc n) ''/'' peer parent relpath out =
           Returns (None, [], set_parent parent None (set_peer peer None out)) \<and>
         (g_root_inode t = None \<longrightarrow>
            inode_search_nofollow pf t 0 ''/'' peer parent relpath out =
              Returns (None, [], set_parent parent None (set_peer peer None out))) \<and>
         (g_root_inode t \<noteq> None \<longrightarrow>
            inode_search_nofollow pf t 0 ''/'' peer parent relpath out = OutOfFuel)"
proof (cases "g_root_inode t")
  case None
  then show ?thesis by (simp add: walk_simps)
next
  case (Some a)
  with assms obtain s where s: "i_name (inodes t a) = Some s" "deref s \<noteq> NUL"
    by auto
  then have "inode_compare (char_signed pf) (Some []) (inodes t a) = - 1"
    by (cases s) (simp_all add: inode_compare_def)
  with Some show ?thesis by (simp add: walk_simps)
qed

theorem root_lookup_witness:
  "(\<exists>s. i_name (inodes tree_T1 10) = Some s \<and> deref s \<noteq> NUL) \<and>
   inode_search_nofollow unsigned_platform tree_T1 (Suc 0) ''/'' True True True no_cells =
     Returns (None, [], no_cells) \<and>
   inode_search_nofollow unsigned_platform tree_T1 0 ''/'' True True True no_cells = OutOfFuel"
  using root_lookup [of tree_T1 unsigned_platform 0 True True True no_cells]
  by (simp add: T1_fields NUL_def set_peer_def set_parent_def no_cells_def)

text \<open>
  Claim C3, as stated: on every tree that satisfies the sibling-ordering
  invariant, which the spec words as byte-wise ascending names, a path with a
  proper prefix that resolves by segment matching to a mount point \<open>m\<close> makes
  \<^verbatim>\<open>inode_search_nofollow\<close> return \<open>m\<close>. The walker gives up a sibling list
  as soon as the comparator of the source says that the segment is less than a
  name, and that comparator reads plain \<^verbatim>\<open>char\<close>. \<open>tree_high\<close> is sorted
  byte-wise (0x61 before 0x80), and its prefix of the one segment 0x80 resolves
  to the mount point at 20. Where plain \<^verbatim>\<open>char\<close> is signed the byte 0x80 is
  -128 and compares less than \<^verbatim>\<open>a\<close>: the walk ends at the first node with no
  node found, the cursor still at the first segment, and the relpath cell not
  written.
\<close>

theorem mountpoint_absorption_counterexample:
  "peers_sorted False tree_high \<and>
   resolves_by_segments tree_high (g_root_inode tree_high) [[CHR 0x80]] 20 \<and>
   INODE_IS_MOUNTPT (inodes tree_high 20) \<and>
   segment_chars [CHR 0x80] \<and>
   inode_search_nofollow signed_platform tree_high (Suc 0)
     (path_of [[CHR 0x80]] @ CHR ''/'' # ''x/y'') True True True no_cells =
     Returns (None, CHR 0x80 # ''/x/y'', no_cells)"
proof -
  have mount: "INODE_IS_MOUNTPT (inodes tree_high 20)"
    by (simp add: high_fields INODE_IS_MOUNTPT_def)
  have segment: "segment_chars [CHR 0x80]"
    by (simp add: segment_chars_def NUL_def)
  have "inode_search_nofollow signed_platform tree_high (Suc 0)
      (path_of [[CHR 0x80]] @ CHR ''/'' # ''x/y'') True True True no_cells =
      Returns (None, CHR 0x80 # ''/x/y'', no_cells)"
    by (simp add: path_of_def walk_simps high_fields signed_platform_def inode_compare_def
        char_val_def NUL_def set_peer_def set_parent_def no_cells_def)
  with high_sorted_unsigned high_mount mount segment show ?thesis
    by simp
qed

text \<open>
  Claim C3, amended. Let the sibling lists of the tree be sorted in the order of
  the comparator of the source, which reads the bytes of the names as plain
  \<^verbatim>\<open>char\<close> (the byte-wise order of the spec where plain \<^verbatim>\<open>char\<close> is
  unsigned), let the segments \<open>segs\<close> resolve by segment matching from the root
  to a mount point \<open>m\<close>, and let the path go on after them with a \<^verbatim>\<open>/\<close> and
  \<open>rest\<close>. Then, with enough fuel, \<^verbatim>\<open>inode_search_nofollow\<close> returns \<open>m\<close> with
  the path cursor at \<open>rest\<close>, the text after that \<^verbatim>\<open>/\<close>; the relpath cell holds
  \<open>rest\<close> when the out-pointer is supplied and is left alone when it is not.
\<close>

theorem mountpoint_absorption:
  assumes "peers_sorted (char_signed pf) t"
    and "resolves_by_segments t (g_root_inode t) segs m"
    and "INODE_IS_MOUNTPT (inodes t m)"
    and "\<forall>s\<in>set segs. segment_chars s"
  shows "\<exists>k. \<forall>n. \<exists>out'.
           inode_search_nofollow pf t (k + n) (path_of segs @ CHR ''/'' # rest)
             peer parent relpath out =
             Returns (Some m, rest, out') \<and>
           relpath_cell out' = (if relpath then Some rest else relpath_cell out)"
proof -
  from walk_segments [OF assms, of rest None None relpath out] obtain k left' up' where
    walk: "\<forall>n. search_walk pf t (k + n) (tl (path_of segs) @ CHR ''/'' # rest) (g_root_inode t)
              None None relpath out =
            Returns (Some m, rest, left', up', set_relpath relpath rest out)"
    by blast
  from assms(2) have "segs \<noteq> []" by (rule resolves_nonempty)
  then have path: "path_of segs @ CHR ''/'' # rest =
      CHR ''/'' # tl (path_of segs) @ CHR ''/'' # rest"
    by (cases segs) (simp_all add: path_of_Cons)
  have "\<forall>n. inode_search_nofollow pf t (k + n) (path_of segs @ CHR ''/'' # rest)
              peer parent relpath out =
            Returns (Some m, rest,
              set_parent parent up' (set_peer peer left' (set_relpath relpath rest out)))"
    using walk unfolding path by (simp add: inode_search_nofollow.simps)
  moreover have "relpath_cell
        (set_parent parent up' (set_peer peer left' (set_relpath relpath rest out))) =
      (if relpath then Some rest else relpath_cell out)"
    by (simp add: set_parent_def set_peer_def set_relpath_def)
  ultimately show ?thesis by blast
qed

theorem mountpoint_absorption_witness:
  "peers_sorted (char_signed unsigned_platform) tree_T1 \<and>
   peers_sorted (char_signed signed_platform) tree_T1 \<and>
   resolves_by_segments tree_T1 (g_root_inode tree_T1) [''mnt''] 30 \<and>
   INODE_IS_MOUNTPT (inodes tree_T1 30) \<and>
   segment_chars ''mnt'' \<and>
   (\<exists>k. \<forall>n. \<exists>out'.
      inode_search_nofollow unsigned_platform tree_T1 (k + n) ''/mnt/a/b/c''
        True True True no_cells =
        Returns (Some 30, ''a/b/c'', out') \<and>
      relpath_cell out' = Some ''a/b/c'') \<and>
   (\<exists>k. \<forall>n. \<exists>out'.
      inode_search_nofollow signed_platform tree_T1 (k + n) ''/mnt/a/b/c''
        True False True no_cells =
        Returns (Some 30, ''a/b/c'', out') \<and>
      relpath_cell out' = Some ''a/b/c'')"
proof -
  have sorted: "peers_sorted (char_signed pf) tree_T1" for pf
    by (rule T1_sorted)
  have mount: "INODE_IS_MOUNTPT (inodes tree_T1 30)"
    by (simp add: T1_fields INODE_IS_MOUNTPT_def)
  have segment: "segment_chars ''mnt''"
    by (simp add: segment_chars_def NUL_def)
  then have segments: "\<forall>s\<in>set [''mnt'']. segment_chars s"
    by simp
  from mountpoint_absorption [OF sorted T1_mnt mount segments,
      of unsigned_platform "''a/b/c''" True True True no_cells]
  have unsigned: "\<exists>k. \<forall>n. \<exists>out'.
      inode_search_nofollow unsigned_platform tree_T1 (k + n) ''/mnt/a/b/c''
        True True True no_cells =
        Returns (Some 30, ''a/b/c'', out') \<and>
      relpath_cell out' = Some ''a/b/c''"
    by (simp add: path_of_def)
  from mountpoint_absorption [OF sorted T1_mnt mount segments,
      of signed_platform "''a/b/c''" True False True no_cells]
  have signed: "\<exists>k. \<forall>n. \<exists>out'.
      inode_search_nofollow signed_platform tree_T1 (k + n) ''/mnt/a/b/c''
        True False True no_cells =
        Returns (Some 30, ''a/b/c'', out') \<and>
      relpath_cell out' = Some ''a/b/c''"
    by (simp add: path_of_def)
  from sorted [of unsigned_platform] sorted [of signed_platform] T1_mnt mount segment
    unsigned signed
  show ?thesis
    by (intro conjI)
qed

end
